theory Spec2Isabelle
  imports
    Complex_Main
    "HOL-Library.Log_Nat"
    "HOL-Library.Multiset"
    "HOL-Library.Char_ord"
    "HOL-Library.List_Lexorder"
    "HOL-Library.Product_Lexorder"
    "HOL-Library.Option_ord"
begin

section \<open>Large-loss threshold search of \<^verbatim>\<open>ll_threshold_experiment.ipynb\<close>\<close>

text \<open>
  The development follows the notebook cell by cell: the two SQL aggregations and the
  pandas \<^verbatim>\<open>groupby\<close> that build \<^verbatim>\<open>combined_df\<close>, the loop over
  \<^verbatim>\<open>segment_list[:4]\<close>, the inner loop over \<^verbatim>\<open>range(interval+1)\<close> that removes
  the largest claims and records the Mack standard error, and the selection of the largest
  change of that series.

  Numbers. The notebook computes the cut-off index and the recorded percentage from the
  literals \<^verbatim>\<open>1\<close>, \<^verbatim>\<open>0.7\<close> and \<^verbatim>\<open>0.01\<close> in Python floats, and the result of
  \<^verbatim>\<open>int(len(df) * increment * i)\<close> depends on the rounding of each product. That
  arithmetic is modelled exactly: a float is the rational number it denotes and every
  operation rounds its exact result to the nearest binary64 value, ties to even
  (\<open>fl\<close>). The exponent range is not bounded, so overflow, subnormal numbers,
  infinities and not-a-number are outside the model. Amounts of money and the metric come
  from outside the notebook; they are rationals, and the sums inside the aggregations are
  exact.
\<close>

subsection \<open>Python floats\<close>

definition pow2 :: "int \<Rightarrow> rat" where
  "pow2 e = (if 0 \<le> e then 2 ^ nat e else 1 / 2 ^ nat (- e))"

text \<open>\<open>ilog2 x\<close> is the integer \<open>k\<close> with \<open>2\<^sup>k \<le> x < 2\<^sup>k\<^sup>+\<^sup>1\<close>, for \<open>x > 0\<close>.\<close>

definition ilog2 :: "rat \<Rightarrow> int" where
  "ilog2 x = (if 1 \<le> x then bitlen \<lfloor>x\<rfloor> - 1 else - bitlen (\<lceil>1 / x\<rceil> - 1))"

definition round_half_even :: "rat \<Rightarrow> int" where
  "round_half_even y =
     (let f = \<lfloor>y\<rfloor>; d = y - of_int f
      in if d < 1 / 2 then f else if 1 / 2 < d then f + 1 else if even f then f else f + 1)"

text \<open>Rounding to 53 significant bits.\<close>

definition fl :: "rat \<Rightarrow> rat" where
  "fl x = (if x = 0 then 0
           else let e = ilog2 \<bar>x\<bar> - 52
                in sgn x * of_int (round_half_even (\<bar>x\<bar> / pow2 e)) * pow2 e)"

text \<open>\<^verbatim>\<open>int(x)\<close> on a float truncates towards zero.\<close>

definition py_int :: "rat \<Rightarrow> int" where
  "py_int x = (if 0 \<le> x then \<lfloor>x\<rfloor> else \<lceil>x\<rceil>)"

text \<open>\<^verbatim>\<open>round(x, 0)\<close> rounds to the nearest integer, ties to even, and stays a float.\<close>

definition py_round0 :: "rat \<Rightarrow> rat" where
  "py_round0 x = fl (of_int (round_half_even x))"

subsection \<open>Frames\<close>

text \<open>
  A row of \<^verbatim>\<open>paid_data\<close> or \<^verbatim>\<open>ocr_data\<close> is a \<open>transaction\<close>; \<open>gross\<close> and \<open>net\<close>
  stand for \<^verbatim>\<open>gross_paid\<close>, \<^verbatim>\<open>net_paid\<close> in the first frame and for \<^verbatim>\<open>gross_ocr\<close>,
  \<^verbatim>\<open>net_ocr\<close> in the second. A row of \<^verbatim>\<open>ocr_claims\<close>, \<^verbatim>\<open>paid_claims\<close> or
  \<^verbatim>\<open>combined_df\<close> is a \<open>claim\<close>. Dates are day numbers; a blank loss date is \<open>None\<close>.
  A frame is the list of its rows.
\<close>

record claim_key =
  claim_id :: string
  segment :: string
  loss_date :: "int option"

record transaction = claim_key +
  transaction_date :: int
  gross :: rat
  net :: rat

record claim = claim_key +
  gross_amount :: rat
  net_amount :: rat

datatype error = ValueError | LibraryError

type_synonym key = "string \<times> string \<times> int option"

definition key_of :: "'a claim_key_scheme \<Rightarrow> key" where
  "key_of r = (claim_id r, segment r, loss_date r)"

subsection \<open>Organising claims data\<close>

text \<open>
  \<^verbatim>\<open>GROUP BY claim_id, segment, loss_date\<close> and
  \<^verbatim>\<open>groupby(['claim_id', 'segment', 'loss_date'])\<close>: one output row per key, the keys in
  ascending order (pandas sorts the group keys; SQLite groups through a sort).
\<close>

definition group_keys :: "'a claim_key_scheme list \<Rightarrow> key list" where
  "group_keys rows = sort (remdups (map key_of rows))"

definition rows_of :: "key \<Rightarrow> 'a claim_key_scheme list \<Rightarrow> 'a claim_key_scheme list" where
  "rows_of k rows = filter (\<lambda>r. key_of r = k) rows"

definition mk_claim :: "key \<Rightarrow> rat \<Rightarrow> rat \<Rightarrow> claim" where
  "mk_claim k g n =
     \<lparr>claim_id = fst k, segment = fst (snd k), loss_date = snd (snd k),
      gross_amount = g, net_amount = n\<rparr>"

text \<open>SQL \<^verbatim>\<open>MAX\<close> over the rows of a group; a group is never empty.\<close>

definition sql_max :: "rat list \<Rightarrow> rat" where
  "sql_max vs = (case vs of [] \<Rightarrow> 0 | v # rest \<Rightarrow> fold max rest v)"

text \<open>\<^verbatim>\<open>.dropna(subset=["loss_date"])\<close>\<close>

definition dropna :: "'a claim_key_scheme list \<Rightarrow> 'a claim_key_scheme list" where
  "dropna rows = filter (\<lambda>r. loss_date r \<noteq> None) rows"

definition ocr_claims :: "transaction list \<Rightarrow> claim list" where
  "ocr_claims ocr_data =
     dropna (map (\<lambda>k. mk_claim k (sql_max (map gross (rows_of k ocr_data)))
                                  (sql_max (map net (rows_of k ocr_data))))
                 (group_keys ocr_data))"

definition paid_claims :: "transaction list \<Rightarrow> claim list" where
  "paid_claims paid_data =
     dropna (map (\<lambda>k. mk_claim k (sum_list (map gross (rows_of k paid_data)))
                                  (sum_list (map net (rows_of k paid_data))))
                 (group_keys paid_data))"

text \<open>
  \<^verbatim>\<open>pd.concat([ocr_claims, paid_claims])\<close> grouped by the key and summed; pandas drops
  the groups whose key holds a missing value.
\<close>

definition combined_df :: "claim list \<Rightarrow> claim list \<Rightarrow> claim list" where
  "combined_df oc pc =
     (let both = oc @ pc
      in map (\<lambda>k. mk_claim k (sum_list (map gross_amount (rows_of k both)))
                               (sum_list (map net_amount (rows_of k both))))
             (group_keys (dropna both)))"

subsection \<open>Identifying largest claims: the sweep\<close>

definition start_point :: rat where
  "start_point = fl 1"

definition end_point :: rat where
  "end_point = fl (7 / 10)"

definition increment :: rat where
  "increment = fl (1 / 100)"

text \<open>\<^verbatim>\<open>interval = int(round((start_point-end_point)/increment,0))\<close>\<close>

definition interval :: nat where
  "interval = nat (py_int (py_round0 (fl (fl (start_point - end_point) / increment))))"

text \<open>\<^verbatim>\<open>one_percent_index = int(len(attritional_claims) * increment*i)\<close>\<close>

definition one_percent_index :: "nat \<Rightarrow> nat \<Rightarrow> nat" where
  "one_percent_index n i =
     nat (py_int (fl (fl (fl (of_nat n) * increment) * fl (of_nat i))))"

text \<open>
  \<^verbatim>\<open>sort_values(by='gross_amount', ascending=False)\<close>. The only sort key is the amount.
  pandas sorts the reversed column ascending and reverses the result, so with a stable
  kernel rows of equal amount keep their order in the frame; that is the order taken here.
\<close>

definition sort_values :: "claim list \<Rightarrow> claim list" where
  "sort_values df = sort_key (\<lambda>c. - gross_amount c) df"

definition attritional_claims :: "claim list \<Rightarrow> nat \<Rightarrow> claim list" where
  "attritional_claims segment_df i =
     drop (one_percent_index (length segment_df) i) (sort_values segment_df)"

text \<open>
  \<^verbatim>\<open>left.merge(right["claim_id"], on="claim_id")\<close>: an inner join, every row of the
  left frame once for each row of the right column with the same \<^verbatim>\<open>claim_id\<close>.
\<close>

definition merge_on_claim_id :: "transaction list \<Rightarrow> string list \<Rightarrow> transaction list" where
  "merge_on_claim_id left right =
     concat (map (\<lambda>r. replicate (count_list right (claim_id r)) r) left)"

definition filter_step :: "claim list \<Rightarrow> nat \<Rightarrow> transaction list \<Rightarrow> transaction list" where
  "filter_step segment_df i txns =
     (if 0 < one_percent_index (length segment_df) i
      then merge_on_claim_id txns (map claim_id (attritional_claims segment_df i))
      else txns)"

text \<open>
  The triangle library (\<^verbatim>\<open>cl.Triangle\<close>, \<^verbatim>\<open>grain\<close>, \<^verbatim>\<open>incr_to_cum\<close>, \<^verbatim>\<open>+\<close>,
  \<^verbatim>\<open>cl.Development\<close>, \<^verbatim>\<open>cl.MackChainladder\<close>) is not part of the notebook. The sweep
  takes it as a parameter: from the two filtered frames it returns the sum of the
  \<^verbatim>\<open>Mack Std Err\<close> column, or raises.
\<close>

type_synonym engine = "transaction list \<Rightarrow> transaction list \<Rightarrow> error + rat"

record sweep_state =
  segment_paid :: "transaction list"
  segment_ocr :: "transaction list"
  claims_percentage :: "rat list"
  mack_mse :: "rat list"

definition sweep_step :: "engine \<Rightarrow> claim list \<Rightarrow> nat \<Rightarrow> sweep_state \<Rightarrow> error + sweep_state" where
  "sweep_step mack segment_df i st =
     (let paid = filter_step segment_df i (segment_paid st);
          ocr = filter_step segment_df i (segment_ocr st)
      in case mack paid ocr of
           Inl e \<Rightarrow> Inl e
         | Inr se \<Rightarrow>
             Inr \<lparr>segment_paid = paid, segment_ocr = ocr,
                  claims_percentage =
                    claims_percentage st @ [fl (start_point - fl (increment * fl (of_nat i)))],
                  mack_mse = mack_mse st @ [se]\<rparr>)"

fun sweep_loop :: "engine \<Rightarrow> claim list \<Rightarrow> nat list \<Rightarrow> sweep_state \<Rightarrow> error + sweep_state" where
  "sweep_loop mack segment_df [] st = Inr st"
| "sweep_loop mack segment_df (i # rest) st =
     (case sweep_step mack segment_df i st of
        Inl e \<Rightarrow> Inl e
      | Inr st' \<Rightarrow> sweep_loop mack segment_df rest st')"

subsection \<open>The largest drop\<close>

text \<open>\<^verbatim>\<open>Series.diff()\<close>: the first entry is missing, the others are float differences.\<close>

fun diff :: "rat list \<Rightarrow> rat option list" where
  "diff [] = []"
| "diff (x # xs) = None # map (\<lambda>(a, b). Some (fl (b - a))) (zip (x # xs) xs)"

definition abs_col :: "rat option list \<Rightarrow> rat option list" where
  "abs_col col = map (map_option abs) col"

text \<open>A column with its \<^verbatim>\<open>RangeIndex\<close> labels.\<close>

definition labelled :: "'a list \<Rightarrow> (nat \<times> 'a) list" where
  "labelled col = zip [0..<length col] col"

fun first_max :: "nat \<times> rat \<Rightarrow> (nat \<times> rat) list \<Rightarrow> nat \<times> rat" where
  "first_max best [] = best"
| "first_max best (lv # rest) = first_max (if snd best < snd lv then lv else best) rest"

text \<open>
  \<^verbatim>\<open>Series.idxmax()\<close>: the label of the first occurrence of the maximum, missing values
  skipped; \<^verbatim>\<open>ValueError\<close> on an empty series.
\<close>

definition idxmax :: "(nat \<times> rat option) list \<Rightarrow> error + nat" where
  "idxmax s =
     (case List.map_filter (\<lambda>(l, v). map_option (Pair l) v) s of
        [] \<Rightarrow> Inl ValueError
      | b # rest \<Rightarrow> Inr (fst (first_max b rest)))"

definition mack_mse_diff :: "rat list \<Rightarrow> rat option list" where
  "mack_mse_diff ms = abs_col (diff ms)"

text \<open>\<^verbatim>\<open>max_drop_index = mack_df['mack_mse_diff'][1:].idxmax()\<close>\<close>

definition max_drop_index :: "rat list \<Rightarrow> error + nat" where
  "max_drop_index ms = idxmax (drop 1 (labelled (mack_mse_diff ms)))"

text \<open>
  \<^verbatim>\<open>pd.DataFrame(segment_dict)\<close> raises when the two lists differ in length;
  \<^verbatim>\<open>mack_df.loc[max_drop_index, 'claims_percentage']\<close> is the value stored.
\<close>

definition drop_detector :: "rat list \<Rightarrow> rat list \<Rightarrow> error + rat" where
  "drop_detector cp ms =
     (if length cp \<noteq> length ms then Inl ValueError
      else case max_drop_index ms of Inl e \<Rightarrow> Inl e | Inr k \<Rightarrow> Inr (cp ! k))"

subsection \<open>One segment, all segments\<close>

record segment_result =
  threshold :: rat
  large_claims :: "claim list"

text \<open>
  The body of \<^verbatim>\<open>for segment in segment_list[:4]\<close>. After the inner loop
  \<^verbatim>\<open>one_percent_index\<close> still holds the value of the last step, and that value cuts
  \<^verbatim>\<open>large_claims\<close>.
\<close>

definition run_segment ::
    "engine \<Rightarrow> claim list \<Rightarrow> transaction list \<Rightarrow> transaction list \<Rightarrow> error + segment_result" where
  "run_segment mack segment_df paid ocr =
     (case sweep_loop mack segment_df [0..<interval + 1]
             \<lparr>segment_paid = paid, segment_ocr = ocr, claims_percentage = [], mack_mse = []\<rparr> of
        Inl e \<Rightarrow> Inl e
      | Inr st \<Rightarrow>
          (case drop_detector (claims_percentage st) (mack_mse st) of
             Inl e \<Rightarrow> Inl e
           | Inr t \<Rightarrow>
               Inr \<lparr>threshold = t,
                    large_claims =
                      take (one_percent_index (length segment_df) interval)
                           (sort_values segment_df)\<rparr>))"

text \<open>\<^verbatim>\<open>Series.unique()\<close>: the distinct values in order of first appearance.\<close>

definition unique :: "'a list \<Rightarrow> 'a list" where
  "unique xs = rev (remdups (rev xs))"

definition segment_list :: "claim list \<Rightarrow> string list" where
  "segment_list oc = unique (map segment oc)"

definition in_segment :: "string \<Rightarrow> 'a claim_key_scheme list \<Rightarrow> 'a claim_key_scheme list" where
  "in_segment s rows = filter (\<lambda>r. segment r = s) rows"

fun run_segments ::
    "engine \<Rightarrow> claim list \<Rightarrow> transaction list \<Rightarrow> transaction list \<Rightarrow> string list \<Rightarrow>
     (string \<rightharpoonup> rat) \<Rightarrow> error + (string \<rightharpoonup> rat)" where
  "run_segments mack df paid_data ocr_data [] threshold_percentage = Inr threshold_percentage"
| "run_segments mack df paid_data ocr_data (s # rest) threshold_percentage =
     (case run_segment mack (in_segment s df) (in_segment s paid_data) (in_segment s ocr_data) of
        Inl e \<Rightarrow> Inl e
      | Inr res \<Rightarrow>
          run_segments mack df paid_data ocr_data rest
            (threshold_percentage(''Rwanda '' @ s \<mapsto> threshold res)))"

definition notebook :: "engine \<Rightarrow> transaction list \<Rightarrow> transaction list \<Rightarrow> error + (string \<rightharpoonup> rat)" where
  "notebook mack paid_data ocr_data =
     (let oc = ocr_claims ocr_data; pc = paid_claims paid_data; df = combined_df oc pc
      in run_segments mack df paid_data ocr_data (take 4 (segment_list oc)) Map.empty)"

subsection \<open>Notions used in the statements\<close>

text \<open>
  The change of the metric at step \<open>k\<close>, \<open>|metric[k] - metric[k-1]|\<close>, the subtraction
  being the float subtraction of \<^verbatim>\<open>diff()\<close>.
\<close>

definition delta :: "rat list \<Rightarrow> nat \<Rightarrow> rat" where
  "delta ms k = \<bar>fl (ms ! k - ms ! (k - 1))\<bar>"

text \<open>
  The frame that step \<open>i\<close> hands to the triangle library: the original frame after the
  filtering of the steps \<open>0, \<dots>, i\<close>. The state before step 0.
\<close>

definition filtered :: "claim list \<Rightarrow> nat \<Rightarrow> transaction list \<Rightarrow> transaction list" where
  "filtered segment_df i txns = fold (filter_step segment_df) [0..<Suc i] txns"

definition init_state :: "transaction list \<Rightarrow> transaction list \<Rightarrow> sweep_state" where
  "init_state paid ocr = \<lparr>segment_paid = paid, segment_ocr = ocr, claims_percentage = [], mack_mse = []\<rparr>"

text \<open>The percentage recorded at step \<open>i\<close>: \<^verbatim>\<open>start_point-increment*i\<close>.\<close>

definition percentage_at :: "nat \<Rightarrow> rat" where
  "percentage_at i = fl (start_point - fl (increment * fl (of_nat i)))"

text \<open>
  How often step \<open>j\<close> repeats a transaction of claim \<open>c\<close>: once for each retained row of
  that \<^verbatim>\<open>claim_id\<close> when the step merges, once when it does not.
\<close>

definition step_factor :: "claim list \<Rightarrow> nat \<Rightarrow> string \<Rightarrow> nat" where
  "step_factor segment_df j c =
     (if 0 < one_percent_index (length segment_df) j
      then count_list (map claim_id (attritional_claims segment_df j)) c else 1)"

text \<open>The three cells of the aggregation together.\<close>

definition aggregate :: "transaction list \<Rightarrow> transaction list \<Rightarrow> claim list" where
  "aggregate paid_data ocr_data = combined_df (ocr_claims ocr_data) (paid_claims paid_data)"

text \<open>What a run stored under a key of \<^verbatim>\<open>threshold_percentage\<close>.\<close>

definition stored :: "error + (string \<rightharpoonup> rat) \<Rightarrow> string \<Rightarrow> error + rat option" where
  "stored result k = (case result of Inl e \<Rightarrow> Inl e | Inr d \<Rightarrow> Inr (d k))"

subsection \<open>Example frames\<close>

definition txn :: "string \<Rightarrow> string \<Rightarrow> int option \<Rightarrow> int \<Rightarrow> rat \<Rightarrow> transaction" where
  "txn c s d t g =
     \<lparr>claim_id = c, segment = s, loss_date = d, transaction_date = t, gross = g, net = g\<rparr>"

text \<open>
  Four dated claims of one segment and a fifth, \<^verbatim>\<open>E\<close>, whose loss date is blank. Claim
  \<^verbatim>\<open>D\<close> has payments and no reserve.
\<close>

definition demo_paid :: "transaction list" where
  "demo_paid =
     [txn ''A'' ''Motor'' (Some 1) 10 400, txn ''B'' ''Motor'' (Some 1) 10 300,
      txn ''C'' ''Motor'' (Some 2) 10 200, txn ''D'' ''Motor'' (Some 2) 10 100,
      txn ''E'' ''Motor'' None 10 50]"

definition demo_ocr :: "transaction list" where
  "demo_ocr =
     [txn ''A'' ''Motor'' (Some 1) 20 40, txn ''B'' ''Motor'' (Some 1) 20 30,
      txn ''C'' ''Motor'' (Some 2) 20 20]"

definition demo_df :: "claim list" where
  "demo_df = combined_df (ocr_claims demo_ocr) (paid_claims demo_paid)"

text \<open>
  A claim paid under two loss dates: \<^verbatim>\<open>X\<close> has two rows in \<^verbatim>\<open>combined_df\<close>.
\<close>

definition dup_paid :: "transaction list" where
  "dup_paid =
     [txn ''A'' ''Motor'' (Some 1) 10 400, txn ''B'' ''Motor'' (Some 1) 10 300,
      txn ''X'' ''Motor'' (Some 1) 10 50, txn ''X'' ''Motor'' (Some 2) 10 40]"

definition dup_ocr :: "transaction list" where
  "dup_ocr = [txn ''B'' ''Motor'' (Some 1) 20 30]"

definition dup_df :: "claim list" where
  "dup_df = combined_df (ocr_claims dup_ocr) (paid_claims dup_paid)"

text \<open>Five segments with one reserve row each.\<close>

definition five_ocr :: "transaction list" where
  "five_ocr =
     [txn ''A'' ''S1'' (Some 1) 20 40, txn ''B'' ''S2'' (Some 1) 20 30,
      txn ''C'' ''S3'' (Some 1) 20 20, txn ''D'' ''S4'' (Some 1) 20 10,
      txn ''E'' ''S5'' (Some 1) 20 5]"





subsection \<open>Stand-ins for the triangle library\<close>

text \<open>
  The metric is the total of the two frames. \<open>sum_mack\<close> never raises; \<open>stub_mack\<close>
  cannot fit a paid frame of fewer than five rows.
\<close>

definition sum_mack :: engine where
  "sum_mack paid ocr = Inr (sum_list (map gross paid) + sum_list (map gross ocr))"

definition stub_mack :: engine where
  "stub_mack paid ocr =
     (if length paid < 5 then Inl LibraryError
      else Inr (sum_list (map gross paid) + sum_list (map gross ocr)))"


section \<open>Properties\<close>

subsection \<open>The cut-off index\<close>

text \<open>
  C3. The claim: at every step the cut-off index is \<open>\<lfloor>claim_count \<times> f\<rfloor>\<close> for the
  exclusion fraction \<open>f\<close> of the step. For a segment of 116 claims at step 25 the
  fraction is exactly one quarter and \<open>\<lfloor>116 \<times> 0.25\<rfloor> = 29\<close>, but the notebook multiplies
  in the order \<^verbatim>\<open>(116 * 0.01) * 25\<close>; the first product rounds to a float just below
  1.16, the second to one just below 29, and \<^verbatim>\<open>int\<close> truncates it to 28. The other
  parts of the claim hold for the index the notebook computes: see
  \<open>excluded_and_retained\<close>, \<open>retained_claim_count\<close> and
  \<open>retained_claim_count_antitone\<close>.
\<close>

theorem one_percent_index_116_25:
  "one_percent_index 116 25 = 28 \<and>
   fl (increment * fl (of_nat 25)) = 1 / 4 \<and>
   nat \<lfloor>of_nat 116 * fl (increment * fl (of_nat 25))\<rfloor> = 29"
  by code_simp

subsection \<open>The largest drop\<close>

lemma length_diff: "length (diff ms) = length ms"
  by (cases ms) simp_all

lemma diff_nth:
  "1 \<le> k \<Longrightarrow> k < length ms \<Longrightarrow> diff ms ! k = Some (fl (ms ! k - ms ! (k - 1)))"
  by (cases ms; cases k) (simp_all add: nth_Cons')

lemma first_max_spec:
  "\<exists>i < length (b # rest). first_max b rest = (b # rest) ! i \<and>
     (\<forall>j < length (b # rest). snd ((b # rest) ! j) \<le> snd ((b # rest) ! i)) \<and>
     (\<forall>j < i. snd ((b # rest) ! j) < snd ((b # rest) ! i))"
proof (induction rest arbitrary: b)
  case Nil
  then show ?case by simp
next
  case (Cons lv rest)
  show ?case
  proof (cases "snd b < snd lv")
    case True
    from Cons.IH [of lv] obtain i where i: "i < length (lv # rest)"
      "first_max lv rest = (lv # rest) ! i"
      "\<forall>j < length (lv # rest). snd ((lv # rest) ! j) \<le> snd ((lv # rest) ! i)"
      "\<forall>j < i. snd ((lv # rest) ! j) < snd ((lv # rest) ! i)" by blast
    from i(3) have lv: "snd lv \<le> snd ((lv # rest) ! i)" by force
    show ?thesis
    proof (intro exI [of _ "Suc i"] conjI allI impI)
      show "Suc i < length (b # lv # rest)" using i(1) by simp
      show "first_max b (lv # rest) = (b # lv # rest) ! Suc i" using True i(2) by simp
      show "snd ((b # lv # rest) ! j) \<le> snd ((b # lv # rest) ! Suc i)"
        if "j < length (b # lv # rest)" for j
        using that i(3) lv True by (cases j) auto
      show "snd ((b # lv # rest) ! j) < snd ((b # lv # rest) ! Suc i)" if "j < Suc i" for j
        using that i(4) lv True by (cases j) auto
    qed
  next
    case False
    from Cons.IH [of b] obtain i where i: "i < length (b # rest)"
      "first_max b rest = (b # rest) ! i"
      "\<forall>j < length (b # rest). snd ((b # rest) ! j) \<le> snd ((b # rest) ! i)"
      "\<forall>j < i. snd ((b # rest) ! j) < snd ((b # rest) ! i)" by blast
    show ?thesis
    proof (cases i)
      case 0
      show ?thesis
      proof (intro exI [of _ 0] conjI allI impI)
        show "0 < length (b # lv # rest)" by simp
        show "first_max b (lv # rest) = (b # lv # rest) ! 0" using False i(2) 0 by simp
        show "snd ((b # lv # rest) ! j) \<le> snd ((b # lv # rest) ! 0)"
          if "j < length (b # lv # rest)" for j
        proof (cases j)
          case 0 then show ?thesis by simp
        next
          case (Suc j')
          show ?thesis
          proof (cases j')
            case 0 then show ?thesis using Suc False by simp
          next
            case (Suc j'')
            with \<open>j = Suc j'\<close> that have "Suc j'' < length (b # rest)" by simp
            with i(3) 0 have "snd ((b # rest) ! Suc j'') \<le> snd b" by force
            then show ?thesis using Suc \<open>j = Suc j'\<close> by simp
          qed
        qed
        show "snd ((b # lv # rest) ! j) < snd ((b # lv # rest) ! 0)" if "j < 0" for j
          using that by simp
      qed
    next
      case (Suc i')
      have bi: "snd b < snd ((b # rest) ! i)" using i(4) Suc by force
      show ?thesis
      proof (intro exI [of _ "Suc i"] conjI allI impI)
        show "Suc i < length (b # lv # rest)" using i(1) Suc by simp
        show "first_max b (lv # rest) = (b # lv # rest) ! Suc i" using False i(2) Suc by simp
        show "snd ((b # lv # rest) ! j) \<le> snd ((b # lv # rest) ! Suc i)"
          if "j < length (b # lv # rest)" for j
        proof (cases j)
          case 0 then show ?thesis using bi Suc by simp
        next
          case (Suc j')
          show ?thesis
          proof (cases j')
            case 0 then show ?thesis using \<open>j = Suc j'\<close> False bi \<open>i = Suc i'\<close> by simp
          next
            case (Suc j'')
            with \<open>j = Suc j'\<close> that have "Suc j'' < length (b # rest)" by simp
            with i(3) have "snd ((b # rest) ! Suc j'') \<le> snd ((b # rest) ! i)" by blast
            then show ?thesis using Suc \<open>j = Suc j'\<close> \<open>i = Suc i'\<close> by simp
          qed
        qed
        show "snd ((b # lv # rest) ! j) < snd ((b # lv # rest) ! Suc i)" if "j < Suc i" for j
        proof (cases j)
          case 0 then show ?thesis using bi \<open>i = Suc i'\<close> by simp
        next
          case (Suc j')
          show ?thesis
          proof (cases j')
            case 0 then show ?thesis using \<open>j = Suc j'\<close> False bi \<open>i = Suc i'\<close> by simp
          next
            case (Suc j'')
            with \<open>j = Suc j'\<close> that have "Suc j'' < i" by simp
            with i(4) have "snd ((b # rest) ! Suc j'') < snd ((b # rest) ! i)" by blast
            then show ?thesis using Suc \<open>j = Suc j'\<close> \<open>i = Suc i'\<close> by simp
          qed
        qed
      qed
    qed
  qed
qed

lemma drop_labelled_diff:
  "List.map_filter (\<lambda>(l, v). map_option (Pair l) v) (drop 1 (labelled (mack_mse_diff ms)))
     = map (\<lambda>k. (k, delta ms k)) [1..<length ms]"
proof -
  have "drop 1 (labelled (mack_mse_diff ms))
      = map (\<lambda>k. (k, Some (delta ms k))) [1..<length ms]"
    by (rule nth_equalityI)
       (simp_all add: labelled_def mack_mse_diff_def abs_col_def length_diff diff_nth delta_def)
  then show ?thesis
    by (simp add: List.map_filter_def comp_def)
qed


lemma max_drop_index_spec:
  assumes "2 \<le> length ms"
  shows "\<exists>k. max_drop_index ms = Inr k \<and> 1 \<le> k \<and> k < length ms \<and>
           (\<forall>j. 1 \<le> j \<and> j < length ms \<longrightarrow> delta ms j \<le> delta ms k) \<and>
           (\<forall>j. 1 \<le> j \<and> j < k \<longrightarrow> delta ms j < delta ms k)"
proof -
  define f where "f = (\<lambda>k. (k, delta ms k))"
  define b where "b = f 1"
  define rest where "rest = map f [2..<length ms]"
  have up: "[1..<length ms] = 1 # [2..<length ms]"
    using assms by (simp add: upt_conv_Cons numeral_2_eq_2)
  have xs: "map f [1..<length ms] = b # rest"
    unfolding b_def rest_def by (subst up) simp
  have len: "length (b # rest) = length ms - 1"
    using xs [symmetric] by simp
  have nth: "(b # rest) ! j = (j + 1, delta ms (j + 1))" if "j < length ms - 1" for j
    using that unfolding xs [symmetric] f_def by simp
  have idx: "max_drop_index ms = Inr (fst (first_max b rest))"
    unfolding max_drop_index_def idxmax_def drop_labelled_diff f_def [symmetric] xs by simp
  from first_max_spec [of b rest] obtain i where i: "i < length (b # rest)"
    "first_max b rest = (b # rest) ! i"
    "\<forall>j < length (b # rest). snd ((b # rest) ! j) \<le> snd ((b # rest) ! i)"
    "\<forall>j < i. snd ((b # rest) ! j) < snd ((b # rest) ! i)" by blast
  have i': "i < length ms - 1" using i(1) len by simp
  have k: "max_drop_index ms = Inr (i + 1)"
    using idx i(2) nth [OF i'] by simp
  have le: "delta ms j \<le> delta ms (i + 1)" if "1 \<le> j" "j < length ms" for j
  proof -
    from that have j': "j - 1 < length ms - 1" by simp
    with i(3) len have "snd ((b # rest) ! (j - 1)) \<le> snd ((b # rest) ! i)" by simp
    then show ?thesis using nth [OF j'] nth [OF i'] that by simp
  qed
  have less: "delta ms j < delta ms (i + 1)" if "1 \<le> j" "j < i + 1" for j
  proof -
    from that i' have j': "j - 1 < length ms - 1" and ji: "j - 1 < i" by simp_all
    from i(4) ji have "snd ((b # rest) ! (j - 1)) < snd ((b # rest) ! i)" by simp
    then show ?thesis using nth [OF j'] nth [OF i'] that by simp
  qed
  show ?thesis
    using k i' le less by (intro exI [of _ "i + 1"]) auto
qed

lemma max_drop_index_short: "length ms < 2 \<Longrightarrow> max_drop_index ms = Inl ValueError"
  unfolding max_drop_index_def idxmax_def drop_labelled_diff by simp

text \<open>
  C1. For a metric series of length \<open>n \<ge> 2\<close> (and a percentage column of the same
  length) the detector returns the percentage at an index \<open>k\<close> with \<open>1 \<le> k < n\<close>, so never
  the first sweep point; \<open>delta k\<close> is the largest of \<open>delta 1, \<dots>, delta (n-1)\<close>, and
  every earlier \<open>delta\<close> is strictly smaller, so a tie goes to the first occurrence. For
  the series 10.0, 9.5, 9.3, 5.0, 4.9 at the fractions 0.00, \<dots>, 0.04 the result is 0.03.
  The detector returns whatever the percentage column holds at \<open>k\<close>; inside the sweep that
  column holds \<^verbatim>\<open>1 - 0.01*i\<close>.
\<close>

theorem drop_detector_selects:
  "(length cp = length ms \<and> 2 \<le> length ms \<longrightarrow>
      (\<exists>k. max_drop_index ms = Inr k \<and> drop_detector cp ms = Inr (cp ! k) \<and>
            1 \<le> k \<and> k < length ms \<and>
            (\<forall>j. 1 \<le> j \<and> j < length ms \<longrightarrow> delta ms j \<le> delta ms k) \<and>
            (\<forall>j. 1 \<le> j \<and> j < k \<longrightarrow> delta ms j < delta ms k))) \<and>
   drop_detector (map fl [0, 1 / 100, 2 / 100, 3 / 100, 4 / 100])
                 (map fl [10, 95 / 10, 93 / 10, 5, 49 / 10]) = Inr (fl (3 / 100))"
proof (intro conjI impI)
  assume a: "length cp = length ms \<and> 2 \<le> length ms"
  then obtain k where k: "max_drop_index ms = Inr k" "1 \<le> k" "k < length ms"
    "\<forall>j. 1 \<le> j \<and> j < length ms \<longrightarrow> delta ms j \<le> delta ms k"
    "\<forall>j. 1 \<le> j \<and> j < k \<longrightarrow> delta ms j < delta ms k"
    using max_drop_index_spec [of ms] by blast
  have "drop_detector cp ms = Inr (cp ! k)"
    using a k(1) by (simp add: drop_detector_def)
  with k show "\<exists>k. max_drop_index ms = Inr k \<and> drop_detector cp ms = Inr (cp ! k) \<and>
            1 \<le> k \<and> k < length ms \<and>
            (\<forall>j. 1 \<le> j \<and> j < length ms \<longrightarrow> delta ms j \<le> delta ms k) \<and>
            (\<forall>j. 1 \<le> j \<and> j < k \<longrightarrow> delta ms j < delta ms k)" by blast
next
  show "drop_detector (map fl [0, 1 / 100, 2 / 100, 3 / 100, 4 / 100])
                 (map fl [10, 95 / 10, 93 / 10, 5, 49 / 10]) = Inr (fl (3 / 100))"
    by code_simp
qed

lemma ex_index: "max_drop_index (map fl [10, 95 / 10, 93 / 10, 5, 49 / 10]) = Inr 3"
  by code_simp

theorem drop_detector_selects_witness:
  "length (map fl [0, 1 / 100, 2 / 100, 3 / 100, 4 / 100]) = length (map fl [10, 95 / 10, 93 / 10, 5, 49 / 10]) \<and>
   2 \<le> length (map fl [10, 95 / 10, 93 / 10, 5, 49 / 10]) \<and>
   max_drop_index (map fl [10, 95 / 10, 93 / 10, 5, 49 / 10]) = Inr 3 \<and>
   delta (map fl [10, 95 / 10, 93 / 10, 5, 49 / 10]) 1 < delta (map fl [10, 95 / 10, 93 / 10, 5, 49 / 10]) 3 \<and>
   delta (map fl [10, 95 / 10, 93 / 10, 5, 49 / 10]) 4 \<le> delta (map fl [10, 95 / 10, 93 / 10, 5, 49 / 10]) 3"
  using drop_detector_selects [of "map fl [0, 1 / 100, 2 / 100, 3 / 100, 4 / 100]"
      "map fl [10, 95 / 10, 93 / 10, 5, 49 / 10]"] ex_index
  by auto

subsection \<open>Rounding is monotone\<close>

lemma pow2_powi: "pow2 e = 2 powi e"
  by (simp add: pow2_def power_int_def power_inverse [symmetric] inverse_eq_divide power_one_over)

lemma pow2_pos: "0 < pow2 e"
  by (simp add: pow2_powi)

lemma pow2_add: "pow2 (a + b) = pow2 a * pow2 b"
  by (simp add: pow2_powi power_int_add)

lemma pow2_mono: "a \<le> b \<Longrightarrow> pow2 a \<le> pow2 b"
  by (simp add: pow2_powi power_int_increasing)

lemma pow2_less_cancel: "pow2 a < pow2 b \<Longrightarrow> a < b"
  using pow2_mono [of b a] by (cases "a < b") auto

lemma pow2_nat: "pow2 (int n) = 2 ^ n"
  by (simp add: pow2_def)

lemma ilog2_bounds:
  assumes "0 < x"
  shows "pow2 (ilog2 x) \<le> x \<and> x < pow2 (ilog2 x + 1)"
proof (cases "1 \<le> x")
  case True
  then have fp: "0 < \<lfloor>x\<rfloor>" by linarith
  let ?b = "bitlen \<lfloor>x\<rfloor>"
  from bitlen_bounds [OF fp]
  have lo: "2 ^ nat (?b - 1) \<le> \<lfloor>x\<rfloor>" and hi: "\<lfloor>x\<rfloor> < 2 ^ nat ?b" by auto
  have b1: "1 \<le> ?b" using fp by (simp add: bitlen_alt_def) 
  have il: "ilog2 x = ?b - 1" using True by (simp add: ilog2_def)
  have "(of_int (2 ^ nat (?b - 1)) :: rat) \<le> of_int \<lfloor>x\<rfloor>"
    using lo by (simp only: of_int_le_iff)
  also have "\<dots> \<le> x" by simp
  finally have 1: "pow2 (ilog2 x) \<le> x"
    using b1 by (simp add: il pow2_def)
  have "\<lfloor>x\<rfloor> + 1 \<le> 2 ^ nat ?b" using hi by simp
  then have "(of_int (\<lfloor>x\<rfloor> + 1) :: rat) \<le> of_int (2 ^ nat ?b)"
    by (simp only: of_int_le_iff)
  moreover have "x < of_int (\<lfloor>x\<rfloor> + 1)" by linarith
  ultimately have "x < of_int (2 ^ nat ?b)" by linarith
  then have 2: "x < pow2 (ilog2 x + 1)"
    using b1 by (simp add: il pow2_def)
  from 1 2 show ?thesis by simp
next
  case False
  then have x1: "x < 1" by simp
  let ?c = "\<lceil>1 / x\<rceil>"
  let ?b = "bitlen (?c - 1)"
  have inv1: "1 < 1 / x" using assms x1 by (simp add: field_simps)
  then have c2: "2 \<le> ?c" by linarith
  then have cp: "0 < ?c - 1" by simp
  from bitlen_bounds [OF cp]
  have lo: "2 ^ nat (?b - 1) \<le> ?c - 1" and hi: "?c - 1 < 2 ^ nat ?b" by auto
  have b1: "1 \<le> ?b" using cp by (simp add: bitlen_alt_def)
  have il: "ilog2 x = - ?b" using False by (simp add: ilog2_def)
  \<comment> \<open>upper bound on 1/x\<close>
  have "?c \<le> 2 ^ nat ?b" using hi by simp
  then have "(of_int ?c :: rat) \<le> of_int (2 ^ nat ?b)" by (simp only: of_int_le_iff)
  moreover have "1 / x \<le> of_int ?c" by (rule le_of_int_ceiling)
  ultimately have "1 / x \<le> of_int (2 ^ nat ?b)" by (rule order_trans [rotated])
  then have "1 / x \<le> 2 ^ nat ?b" by simp
  then have "1 \<le> 2 ^ nat ?b * x" using assms by (simp add: field_simps)
  then have 1: "pow2 (ilog2 x) \<le> x"
    using b1 by (simp add: il pow2_def field_simps)
  \<comment> \<open>lower bound on 1/x\<close>
  have "(of_int (2 ^ nat (?b - 1)) :: rat) \<le> of_int (?c - 1)"
    using lo by (simp only: of_int_le_iff)
  moreover have "of_int (?c - 1) < 1 / x" by linarith
  ultimately have "(2 ^ nat (?b - 1) :: rat) < 1 / x" by simp
  then have lt: "(2 ^ nat (?b - 1) :: rat) * x < 1" using assms by (simp add: field_simps)
  have 2: "x < pow2 (ilog2 x + 1)"
  proof (cases "?b = 1")
    case True
    then show ?thesis using x1 by (simp add: il pow2_def)
  next
    case False
    with b1 have "1 < ?b" by simp
    then have e: "pow2 (ilog2 x + 1) = 1 / 2 ^ nat (?b - 1)"
      by (simp add: il pow2_def)
    show ?thesis unfolding e using lt by (simp add: field_simps)
  qed
  from 1 2 show ?thesis by simp
qed

lemma ilog2_mono:
  assumes "0 < x" "x \<le> y"
  shows "ilog2 x \<le> ilog2 y"
proof -
  have "pow2 (ilog2 x) \<le> x" using ilog2_bounds [OF assms(1)] by simp
  also have "x \<le> y" by fact
  also have "y < pow2 (ilog2 y + 1)" using ilog2_bounds [of y] assms by simp
  finally have "ilog2 x < ilog2 y + 1" by (rule pow2_less_cancel)
  then show ?thesis by simp
qed

lemma round_half_even_cases:
  "round_half_even y = \<lfloor>y\<rfloor> \<or> (round_half_even y = \<lfloor>y\<rfloor> + 1 \<and> of_int \<lfloor>y\<rfloor> + 1 / 2 \<le> y)"
  by (auto simp: round_half_even_def Let_def)

lemma round_half_even_of_int [simp]: "round_half_even (of_int m) = m"
  by (simp add: round_half_even_def)

lemma round_half_even_mono:
  assumes "a \<le> b"
  shows "round_half_even a \<le> round_half_even b"
proof (cases "\<lfloor>a\<rfloor> = \<lfloor>b\<rfloor>")
  case True
  then show ?thesis using assms
    by (auto simp: round_half_even_def Let_def)
next
  case False
  with assms have "\<lfloor>a\<rfloor> < \<lfloor>b\<rfloor>" using floor_mono [OF assms] by simp
  then have "\<lfloor>a\<rfloor> + 1 \<le> \<lfloor>b\<rfloor>" by simp
  moreover have "round_half_even a \<le> \<lfloor>a\<rfloor> + 1" using round_half_even_cases [of a] by auto
  moreover have "\<lfloor>b\<rfloor> \<le> round_half_even b" using round_half_even_cases [of b] by auto
  ultimately show ?thesis by simp
qed

lemma fl_pos_eq:
  "0 < x \<Longrightarrow> fl x = of_int (round_half_even (x / pow2 (ilog2 x - 52))) * pow2 (ilog2 x - 52)"
  by (simp add: fl_def Let_def)

lemma fl_bounds:
  assumes "0 < x"
  shows "pow2 (ilog2 x) \<le> fl x \<and> fl x \<le> pow2 (ilog2 x + 1)"
proof -
  let ?e = "ilog2 x - 52"
  let ?s = "x / pow2 ?e"
  have p: "0 < pow2 ?e" by (rule pow2_pos)
  have e52: "pow2 (ilog2 x) = 2 ^ 52 * pow2 ?e"
    using pow2_add [of 52 ?e] pow2_nat [of 52] by simp
  have "ilog2 x + 1 = 53 + ?e" by simp
  then have "pow2 (ilog2 x + 1) = pow2 53 * pow2 ?e"
    by (simp only: pow2_add)
  then have e53: "pow2 (ilog2 x + 1) = 2 ^ 53 * pow2 ?e"
    using pow2_nat [of 53] by simp
  from ilog2_bounds [OF assms] have "2 ^ 52 * pow2 ?e \<le> x" "x < 2 ^ 53 * pow2 ?e"
    unfolding e52 e53 by simp_all
  then have s: "of_int (2 ^ 52) \<le> ?s" "?s \<le> of_int (2 ^ 53)"
    using p by (simp_all add: field_simps)
  from round_half_even_mono [OF s(1)] round_half_even_mono [OF s(2)]
  have "2 ^ 52 \<le> round_half_even ?s" "round_half_even ?s \<le> 2 ^ 53"
    by (simp_all only: round_half_even_of_int)
  then have "(of_int (2 ^ 52) :: rat) \<le> of_int (round_half_even ?s)"
    "(of_int (round_half_even ?s) :: rat) \<le> of_int (2 ^ 53)"
    by (simp_all only: of_int_le_iff)
  then have "2 ^ 52 * pow2 ?e \<le> of_int (round_half_even ?s) * pow2 ?e"
    "of_int (round_half_even ?s) * pow2 ?e \<le> 2 ^ 53 * pow2 ?e"
    using p by simp_all
  then show ?thesis
    unfolding e52 e53 fl_pos_eq [OF assms] by simp
qed

lemma fl_nonneg: "0 \<le> x \<Longrightarrow> 0 \<le> fl x"
proof (cases "x = 0")
  case True
  then show ?thesis by (simp add: fl_def)
next
  case False
  assume "0 \<le> x"
  with False have "0 < x" by simp
  from fl_bounds [OF this] pow2_pos [of "ilog2 x"] show ?thesis by linarith
qed

lemma fl_mono:
  assumes "0 \<le> x" "x \<le> y"
  shows "fl x \<le> fl y"
proof (cases "x = 0")
  case True
  then show ?thesis using fl_nonneg [of y] assms by (simp add: fl_def)
next
  case False
  with assms have x: "0 < x" and y: "0 < y" by simp_all
  have le: "ilog2 x \<le> ilog2 y" using ilog2_mono [OF x assms(2)] .
  show ?thesis
  proof (cases "ilog2 x = ilog2 y")
    case True
    let ?e = "ilog2 y - 52"
    have "x / pow2 ?e \<le> y / pow2 ?e"
      using assms(2) pow2_pos [of ?e] by (simp add: divide_right_mono)
    from round_half_even_mono [OF this]
    have "(of_int (round_half_even (x / pow2 ?e)) :: rat) \<le> of_int (round_half_even (y / pow2 ?e))"
      by (simp only: of_int_le_iff)
    then show ?thesis
      unfolding fl_pos_eq [OF x] fl_pos_eq [OF y] True
      using pow2_pos [of ?e] by simp
  next
    case False
    with le have "ilog2 x + 1 \<le> ilog2 y" by simp
    then have "pow2 (ilog2 x + 1) \<le> pow2 (ilog2 y)" by (rule pow2_mono)
    with fl_bounds [OF x] fl_bounds [OF y] show ?thesis by linarith
  qed
qed

lemma py_int_mono:
  assumes "x \<le> y"
  shows "py_int x \<le> py_int y"
proof (cases "0 \<le> x")
  case True
  with assms show ?thesis by (simp add: py_int_def floor_mono)
next
  case False
  then have c: "\<lceil>x\<rceil> \<le> 0" by (simp add: ceiling_le_iff)
  show ?thesis
  proof (cases "0 \<le> y")
    case True
    then have "0 \<le> \<lfloor>y\<rfloor>" by simp
    with c have "\<lceil>x\<rceil> \<le> \<lfloor>y\<rfloor>" by (rule order_trans)
    with False True show ?thesis by (simp add: py_int_def)
  next
    case False
    with assms \<open>\<not> 0 \<le> x\<close> show ?thesis by (simp add: py_int_def ceiling_mono)
  qed
qed

lemma one_percent_index_mono:
  assumes "i \<le> j"
  shows "one_percent_index n i \<le> one_percent_index n j"
proof -
  let ?a = "fl (fl (of_nat n) * increment)"
  have inc: "0 \<le> increment" unfolding increment_def by (rule fl_nonneg) simp
  have a: "0 \<le> ?a" by (intro fl_nonneg mult_nonneg_nonneg inc) simp
  have "fl (of_nat i) \<le> fl (of_nat j)" using assms by (intro fl_mono) simp_all
  moreover have "0 \<le> fl (of_nat i)" by (rule fl_nonneg) simp
  ultimately have "0 \<le> ?a * fl (of_nat i)" "?a * fl (of_nat i) \<le> ?a * fl (of_nat j)"
    using a by (simp_all add: mult_left_mono)
  then have "fl (?a * fl (of_nat i)) \<le> fl (?a * fl (of_nat j))"
    by (rule fl_mono)
  then show ?thesis
    unfolding one_percent_index_def by (intro nat_mono py_int_mono)
qed

lemma one_percent_index_0: "one_percent_index n 0 = 0"
  by (simp add: one_percent_index_def fl_def py_int_def)

subsection \<open>Excluded and retained claims\<close>

text \<open>
  Whatever index a step computes, the excluded claims are the sorted positions below it,
  the retained claims are the rest, and the number of retained claims does not grow along
  the sweep.
\<close>

lemma excluded_and_retained:
  "take (one_percent_index (length df) i) (sort_values df) @ attritional_claims df i = sort_values df"
  by (simp add: attritional_claims_def)

lemma retained_claim_count:
  "length (attritional_claims df i) = length df - one_percent_index (length df) i"
  by (simp add: attritional_claims_def sort_values_def)

lemma retained_claim_count_antitone:
  "i \<le> j \<Longrightarrow> length (attritional_claims df j) \<le> length (attritional_claims df i)"
  using one_percent_index_mono [of i j "length df"] by (simp add: retained_claim_count)

subsection \<open>The inner loop\<close>

lemma sweep_step_Inr:
  "sweep_step mack df i st = Inr st' \<Longrightarrow>
     segment_paid st' = filter_step df i (segment_paid st) \<and>
     segment_ocr st' = filter_step df i (segment_ocr st) \<and>
     claims_percentage st' = claims_percentage st @ [fl (start_point - fl (increment * fl (of_nat i)))] \<and>
     mack (filter_step df i (segment_paid st)) (filter_step df i (segment_ocr st)) = Inr (last (mack_mse st')) \<and>
     mack_mse st' = mack_mse st @ [last (mack_mse st')]"
  by (auto simp: sweep_step_def Let_def split: sum.splits)

lemma sweep_step_Inl:
  "sweep_step mack df i st = Inl e \<longleftrightarrow>
     mack (filter_step df i (segment_paid st)) (filter_step df i (segment_ocr st)) = Inl e"
  by (auto simp: sweep_step_def Let_def split: sum.splits)

lemma sweep_loop_fails:
  "j < length steps \<Longrightarrow>
   mack (fold (filter_step df) (take (Suc j) steps) (segment_paid st))
        (fold (filter_step df) (take (Suc j) steps) (segment_ocr st)) = Inl e \<Longrightarrow>
   (\<forall>j' < j. \<not> isl (mack (fold (filter_step df) (take (Suc j') steps) (segment_paid st))
                            (fold (filter_step df) (take (Suc j') steps) (segment_ocr st)))) \<Longrightarrow>
   sweep_loop mack df steps st = Inl e"
proof (induction steps arbitrary: st j)
  case Nil
  then show ?case by simp
next
  case (Cons i rest)
  show ?case
  proof (cases j)
    case 0
    with Cons.prems(2) have "sweep_step mack df i st = Inl e"
      by (simp add: sweep_step_Inl)
    then show ?thesis by simp
  next
    case (Suc j0)
    from Cons.prems(3) Suc
    have "\<not> isl (mack (filter_step df i (segment_paid st)) (filter_step df i (segment_ocr st)))"
      by force
    then obtain st1 where s1: "sweep_step mack df i st = Inr st1"
      by (cases "sweep_step mack df i st") (auto simp: sweep_step_Inl)
    note f = sweep_step_Inr [OF s1]
    have "sweep_loop mack df rest st1 = Inl e"
    proof (rule Cons.IH [of j0])
      show "j0 < length rest" using Cons.prems(1) Suc by simp
      show "mack (fold (filter_step df) (take (Suc j0) rest) (segment_paid st1))
        (fold (filter_step df) (take (Suc j0) rest) (segment_ocr st1)) = Inl e"
        using Cons.prems(2) Suc f by simp
      show "\<forall>j'<j0. \<not> isl (mack (fold (filter_step df) (take (Suc j') rest) (segment_paid st1))
                  (fold (filter_step df) (take (Suc j') rest) (segment_ocr st1)))"
      proof (intro allI impI)
        fix j' assume "j' < j0"
        then have "Suc j' < j" using Suc by simp
        with Cons.prems(3) show "\<not> isl (mack (fold (filter_step df) (take (Suc j') rest) (segment_paid st1))
                  (fold (filter_step df) (take (Suc j') rest) (segment_ocr st1)))"
          using f by force
      qed
    qed
    with s1 show ?thesis by simp
  qed
qed

lemma interval_30: "interval = 30"
  by code_simp

lemma ocr_claims_demo:
  "ocr_claims demo_ocr =
     [mk_claim (''A'', ''Motor'', Some 1) 40 40, mk_claim (''B'', ''Motor'', Some 1) 30 30,
      mk_claim (''C'', ''Motor'', Some 2) 20 20]"
  by (simp add: ocr_claims_def demo_ocr_def txn_def group_keys_def key_of_def rows_of_def
      dropna_def sql_max_def mk_claim_def)

lemma paid_claims_demo:
  "paid_claims demo_paid =
     [mk_claim (''A'', ''Motor'', Some 1) 400 400, mk_claim (''B'', ''Motor'', Some 1) 300 300,
      mk_claim (''C'', ''Motor'', Some 2) 200 200, mk_claim (''D'', ''Motor'', Some 2) 100 100]"
  by (simp add: paid_claims_def demo_paid_def txn_def group_keys_def key_of_def rows_of_def
      dropna_def mk_claim_def)

lemma demo_df_eval:
  "demo_df =
     [mk_claim (''A'', ''Motor'', Some 1) 440 440, mk_claim (''B'', ''Motor'', Some 1) 330 330,
      mk_claim (''C'', ''Motor'', Some 2) 220 220, mk_claim (''D'', ''Motor'', Some 2) 100 100]"
  unfolding demo_df_def ocr_claims_demo paid_claims_demo
  by (simp add: combined_df_def group_keys_def key_of_def rows_of_def dropna_def mk_claim_def)

lemma sort_demo: "sort_values demo_df = demo_df"
  unfolding demo_df_eval by (simp add: sort_values_def mk_claim_def)

lemma filtered_Suc: "filtered df (Suc i) txns = filter_step df (Suc i) (filtered df i txns)"
  by (simp add: filtered_def)

lemma filtered_unchanged:
  "one_percent_index (length df) i = 0 \<Longrightarrow> filtered df i txns = txns"
proof (induction i)
  case 0
  then show ?case by (simp add: filtered_def filter_step_def)
next
  case (Suc i)
  from one_percent_index_mono [of i "Suc i" "length df"] Suc.prems
  have "one_percent_index (length df) i = 0" by simp
  with Suc show ?case by (simp add: filtered_Suc filter_step_def)
qed

lemma idx_4_24: "one_percent_index 4 24 = 0"
  by code_simp

lemma stub_step_0: "stub_mack (filtered demo_df 0 demo_paid) (filtered demo_df 0 demo_ocr) = Inr 1140"
  by (simp add: filtered_unchanged one_percent_index_0 stub_mack_def demo_paid_def demo_ocr_def txn_def)


subsection \<open>A step that raises\<close>

lemma filtered_fold: "j < n \<Longrightarrow> fold (filter_step df) (take (Suc j) [0..<n]) txns = filtered df j txns"
  by (simp add: filtered_def take_upt)

lemma run_segment_fails:
  assumes "i \<le> interval"
    and "mack (filtered df i paid) (filtered df i ocr) = Inl e"
    and "\<forall>j<i. \<not> isl (mack (filtered df j paid) (filtered df j ocr))"
  shows "run_segment mack df paid ocr = Inl e"
proof -
  let ?steps = "[0..<interval + 1]"
  have i: "i < length ?steps" using assms(1) by simp
  have eq: "fold (filter_step df) (take (Suc j) ?steps) txns = filtered df j txns"
    if "j \<le> interval" for j txns
    by (rule filtered_fold) (use that in simp)
  have "sweep_loop mack df ?steps (init_state paid ocr) = Inl e"
  proof (rule sweep_loop_fails [OF i])
    show "mack (fold (filter_step df) (take (Suc i) ?steps) (segment_paid (init_state paid ocr)))
       (fold (filter_step df) (take (Suc i) ?steps) (segment_ocr (init_state paid ocr))) = Inl e"
      unfolding eq [OF assms(1)] using assms(2) by (simp add: init_state_def)
    show "\<forall>j'<i. \<not> isl (mack (fold (filter_step df) (take (Suc j') ?steps) (segment_paid (init_state paid ocr)))
       (fold (filter_step df) (take (Suc j') ?steps) (segment_ocr (init_state paid ocr))))"
    proof (intro allI impI)
      fix j' assume j': "j' < i"
      then have "j' \<le> interval" using assms(1) by simp
      then show "\<not> isl (mack (fold (filter_step df) (take (Suc j') ?steps) (segment_paid (init_state paid ocr)))
       (fold (filter_step df) (take (Suc j') ?steps) (segment_ocr (init_state paid ocr))))"
        unfolding eq [OF \<open>j' \<le> interval\<close>] using assms(3) j' by (simp add: init_state_def)
    qed
  qed
  then show ?thesis by (simp add: run_segment_def init_state_def)
qed

lemma in_segment_demo:
  "in_segment ''Motor'' demo_df = demo_df" "in_segment ''Motor'' demo_paid = demo_paid"
  "in_segment ''Motor'' demo_ocr = demo_ocr"
  by (simp_all add: in_segment_def demo_df_eval demo_paid_def demo_ocr_def txn_def mk_claim_def)

lemma length_demo_df: "length demo_df = 4"
  by (simp add: demo_df_eval)

lemma idx_4_25: "one_percent_index 4 25 = 1"
  by code_simp

lemma filtered_demo_24: "filtered demo_df 24 txns = txns"
  by (rule filtered_unchanged) (simp add: length_demo_df idx_4_24)

lemma filtered_demo_before:
  assumes "j < 25"
  shows "filtered demo_df j txns = txns"
proof (rule filtered_unchanged)
  from assms have "j \<le> 24" by simp
  from one_percent_index_mono [OF this, of 4] show "one_percent_index (length demo_df) j = 0"
    by (simp add: length_demo_df idx_4_24)
qed

lemma filtered_demo_25:
  "filtered demo_df 25 txns =
     merge_on_claim_id txns [''B'', ''C'', ''D'']"
proof -
  have "filtered demo_df 25 txns = filter_step demo_df 25 (filtered demo_df 24 txns)"
    using filtered_Suc [of demo_df 24 txns] by simp
  also have "\<dots> = merge_on_claim_id txns (map claim_id (drop 1 (sort_values demo_df)))"
    by (simp add: filtered_demo_24 filter_step_def attritional_claims_def length_demo_df idx_4_25)
  also have "map claim_id (drop 1 (sort_values demo_df)) = [''B'', ''C'', ''D'']"
    unfolding sort_demo by (simp add: demo_df_eval mk_claim_def)
  finally show ?thesis .
qed

lemma stub_step_24:
  "stub_mack (filtered demo_df 24 demo_paid) (filtered demo_df 24 demo_ocr) = Inr 1140"
  by (simp add: filtered_demo_24 stub_mack_def demo_paid_def demo_ocr_def txn_def)

lemma stub_step_25:
  "stub_mack (filtered demo_df 25 demo_paid) (filtered demo_df 25 demo_ocr) = Inl LibraryError"
  by (simp add: filtered_demo_25 stub_mack_def demo_paid_def txn_def merge_on_claim_id_def)

lemma stub_steps_before:
  "\<forall>j<25. \<not> isl (stub_mack (filtered demo_df j demo_paid) (filtered demo_df j demo_ocr))"
  by (simp add: filtered_demo_before stub_mack_def demo_paid_def)

lemma run_segment_demo: "run_segment stub_mack demo_df demo_paid demo_ocr = Inl LibraryError"
  by (rule run_segment_fails [of 25]) (simp_all add: interval_30 stub_step_25 stub_steps_before)

lemma segment_list_demo: "segment_list (ocr_claims demo_ocr) = [''Motor'']"
  by (simp add: ocr_claims_demo segment_list_def unique_def mk_claim_def)

text \<open>
  C6. The claim: a step whose triangle cannot be built or fitted is recorded with an
  undefined metric, the sweep goes on, and the detector skips that step. The notebook has
  no handler around the library calls. In the example the fit succeeds up to step 24 and
  raises at step 25, where the largest claim is removed; the run of the segment, and of
  the notebook, ends in that exception, and no series and no threshold exist.
\<close>

theorem failed_step_ends_the_run:
  "stub_mack (filtered demo_df 24 demo_paid) (filtered demo_df 24 demo_ocr) = Inr 1140 \<and>
   stub_mack (filtered demo_df 25 demo_paid) (filtered demo_df 25 demo_ocr) = Inl LibraryError \<and>
   run_segment stub_mack demo_df demo_paid demo_ocr = Inl LibraryError \<and>
   notebook stub_mack demo_paid demo_ocr = Inl LibraryError"
  by (simp add: stub_step_24 stub_step_25 run_segment_demo notebook_def Let_def segment_list_demo
      demo_df_def [symmetric] in_segment_demo)

text \<open>
  C6, as the notebook behaves: when the library raises at a step of a segment's sweep
  (and at no earlier step), the exception leaves the inner loop and the loop over the
  segments: the run of the segment is that exception, and so is the whole loop, whatever
  segments were still to come.
\<close>

theorem raised_step_propagates:
  assumes "i \<le> interval"
    and "mack (filtered (in_segment s df) i (in_segment s paid_data))
              (filtered (in_segment s df) i (in_segment s ocr_data)) = Inl e"
    and "\<forall>j<i. \<not> isl (mack (filtered (in_segment s df) j (in_segment s paid_data))
                             (filtered (in_segment s df) j (in_segment s ocr_data)))"
  shows "run_segment mack (in_segment s df) (in_segment s paid_data) (in_segment s ocr_data) = Inl e \<and>
         run_segments mack df paid_data ocr_data (s # rest) threshold_percentage = Inl e"
  using run_segment_fails [of i mack "in_segment s df" "in_segment s paid_data" "in_segment s ocr_data" e]
    assms by simp

theorem raised_step_propagates_witness:
  "25 \<le> interval \<and>
   stub_mack (filtered (in_segment ''Motor'' demo_df) 25 (in_segment ''Motor'' demo_paid))
             (filtered (in_segment ''Motor'' demo_df) 25 (in_segment ''Motor'' demo_ocr)) = Inl LibraryError \<and>
   stub_mack (filtered (in_segment ''Motor'' demo_df) 0 (in_segment ''Motor'' demo_paid))
             (filtered (in_segment ''Motor'' demo_df) 0 (in_segment ''Motor'' demo_ocr)) = Inr 1140 \<and>
   run_segment stub_mack (in_segment ''Motor'' demo_df) (in_segment ''Motor'' demo_paid)
               (in_segment ''Motor'' demo_ocr) = Inl LibraryError \<and>
   run_segments stub_mack demo_df demo_paid demo_ocr [''Motor'', ''Fire''] Map.empty = Inl LibraryError"
  using raised_step_propagates [of 25 stub_mack "''Motor''" demo_df demo_paid demo_ocr LibraryError
      "[''Fire'']" Map.empty]
  by (simp add: in_segment_demo interval_30 stub_step_25 stub_steps_before stub_step_0)

subsection \<open>What a step keeps\<close>

lemma merge_on_claim_id_Cons:
  "merge_on_claim_id (x # xs) right =
     replicate (count_list right (claim_id x)) x @ merge_on_claim_id xs right"
  by (simp add: merge_on_claim_id_def)


lemma count_merge_on_claim_id:
  "count_list (merge_on_claim_id left right) r = count_list left r * count_list right (claim_id r)"
proof (induction left)
  case Nil
  then show ?case by (simp add: merge_on_claim_id_def)
next
  case (Cons x xs)
  have "count_list (replicate n x) r = (if r = x then n else 0)" for n
    by (induction n) auto
  with Cons show ?case by (simp add: merge_on_claim_id_Cons)
qed

lemma count_list_distinct:
  "distinct xs \<Longrightarrow> count_list xs x = (if x \<in> set xs then 1 else 0)"
  by (induction xs) auto

lemma merge_on_claim_id_distinct:
  assumes "distinct right"
  shows "merge_on_claim_id left right = filter (\<lambda>r. claim_id r \<in> set right) left"
proof (induction left)
  case Nil
  then show ?case by (simp add: merge_on_claim_id_def)
next
  case (Cons x xs)
  have "count_list right (claim_id x) = (if claim_id x \<in> set right then 1 else 0)"
    using assms by (rule count_list_distinct)
  with Cons show ?case by (simp add: merge_on_claim_id_Cons)
qed

lemma filtered_0: "filtered df 0 txns = txns"
  by (simp add: filtered_unchanged one_percent_index_0)


lemma count_filtered:
  "count_list (filtered df i txns) r =
     count_list txns r * prod_list (map (\<lambda>j. step_factor df j (claim_id r)) [0..<Suc i])"
proof (induction i)
  case 0
  then show ?case by (simp add: filtered_0 step_factor_def one_percent_index_0)
next
  case (Suc i)
  have "count_list (filtered df (Suc i) txns) r =
          count_list (filtered df i txns) r * step_factor df (Suc i) (claim_id r)"
    by (simp add: filtered_Suc filter_step_def step_factor_def count_merge_on_claim_id)
  with Suc show ?case by simp
qed

lemma distinct_ids_attritional:
  assumes "distinct (map claim_id df)"
  shows "distinct (map claim_id (attritional_claims df i))"
proof -
  have "mset (map claim_id (sort_values df)) = mset (map claim_id df)"
    by (simp add: sort_values_def)
  then have "distinct (map claim_id (sort_values df))"
    using assms by (metis mset_eq_imp_distinct_iff)
  then show ?thesis
    by (simp add: attritional_claims_def drop_map [symmetric] distinct_drop)
qed

lemma attritional_nested:
  "i \<le> j \<Longrightarrow> set (attritional_claims df j) \<subseteq> set (attritional_claims df i)"
  unfolding attritional_claims_def
  by (intro set_drop_subset_set_drop one_percent_index_mono)

lemma filtered_restrict:
  assumes "distinct (map claim_id df)"
  shows "filtered df i txns =
     (if 0 < one_percent_index (length df) i
      then filter (\<lambda>r. claim_id r \<in> set (map claim_id (attritional_claims df i))) txns
      else txns)"
proof (induction i)
  case 0
  then show ?case by (simp add: filtered_0 one_percent_index_0)
next
  case (Suc i)
  show ?case
  proof (cases "0 < one_percent_index (length df) (Suc i)")
    case False
    then have "one_percent_index (length df) (Suc i) = 0" by simp
    then show ?thesis by (simp add: filtered_unchanged)
  next
    case True
    let ?R = "\<lambda>j. set (map claim_id (attritional_claims df j))"
    have sub: "?R (Suc i) \<subseteq> ?R i"
      using attritional_nested [of i "Suc i" df] by auto
    have step: "filtered df (Suc i) txns = filter (\<lambda>r. claim_id r \<in> ?R (Suc i)) (filtered df i txns)"
      using True
      by (simp add: filtered_Suc filter_step_def
          merge_on_claim_id_distinct [OF distinct_ids_attritional [OF assms]])
    have "filter (\<lambda>r. claim_id r \<in> ?R (Suc i)) (filtered df i txns)
        = filter (\<lambda>r. claim_id r \<in> ?R (Suc i)) txns"
    proof (cases "0 < one_percent_index (length df) i")
      case False
      then show ?thesis using Suc by simp
    next
      case True
      have "filter (\<lambda>r. claim_id r \<in> ?R (Suc i)) (filter (\<lambda>r. claim_id r \<in> ?R i) txns)
          = filter (\<lambda>r. claim_id r \<in> ?R (Suc i)) txns"
        unfolding filter_filter by (rule filter_cong) (use sub in auto)
      with True Suc show ?thesis by simp
    qed
    with step True show ?thesis by simp
  qed
qed


lemma ocr_claims_dup: "ocr_claims dup_ocr = [mk_claim (''B'', ''Motor'', Some 1) 30 30]"
  by (simp add: ocr_claims_def dup_ocr_def txn_def group_keys_def key_of_def rows_of_def
      dropna_def sql_max_def mk_claim_def)

lemma paid_claims_dup:
  "paid_claims dup_paid =
     [mk_claim (''A'', ''Motor'', Some 1) 400 400, mk_claim (''B'', ''Motor'', Some 1) 300 300,
      mk_claim (''X'', ''Motor'', Some 1) 50 50, mk_claim (''X'', ''Motor'', Some 2) 40 40]"
  by (simp add: paid_claims_def dup_paid_def txn_def group_keys_def key_of_def rows_of_def
      dropna_def mk_claim_def)

lemma dup_df_eval:
  "dup_df =
     [mk_claim (''A'', ''Motor'', Some 1) 400 400, mk_claim (''B'', ''Motor'', Some 1) 330 330,
      mk_claim (''X'', ''Motor'', Some 1) 50 50, mk_claim (''X'', ''Motor'', Some 2) 40 40]"
  unfolding dup_df_def ocr_claims_dup paid_claims_dup
  by (simp add: combined_df_def group_keys_def key_of_def rows_of_def dropna_def mk_claim_def)

lemma sort_dup: "sort_values dup_df = dup_df"
  unfolding dup_df_eval by (simp add: sort_values_def mk_claim_def)

lemma length_dup_df: "length dup_df = 4"
  by (simp add: dup_df_eval)

lemma idx_4_26: "one_percent_index 4 26 = 1"
  by code_simp

lemma attritional_dup:
  "map claim_id (attritional_claims dup_df 25) = [''B'', ''X'', ''X'']"
  "map claim_id (attritional_claims dup_df 26) = [''B'', ''X'', ''X'']"
  unfolding attritional_claims_def sort_dup length_dup_df idx_4_25 idx_4_26
  by (simp_all add: dup_df_eval mk_claim_def)

lemma filtered_dup_24: "filtered dup_df 24 txns = txns"
  by (rule filtered_unchanged) (simp add: length_dup_df idx_4_24)

lemma filtered_dup_25: "filtered dup_df 25 txns = merge_on_claim_id txns [''B'', ''X'', ''X'']"
  using filtered_Suc [of dup_df 24 txns]
  by (simp add: filtered_dup_24 filter_step_def length_dup_df idx_4_25 attritional_dup)

lemma filtered_dup_26:
  "filtered dup_df 26 txns =
     merge_on_claim_id (merge_on_claim_id txns [''B'', ''X'', ''X'']) [''B'', ''X'', ''X'']"
  using filtered_Suc [of dup_df 25 txns]
  by (simp add: filtered_dup_25 filter_step_def length_dup_df idx_4_26 attritional_dup)

lemma attritional_demo_25: "map claim_id (attritional_claims demo_df 25) = [''B'', ''C'', ''D'']"
  unfolding attritional_claims_def sort_demo length_demo_df idx_4_25
  by (simp add: demo_df_eval mk_claim_def)



text \<open>
  C10. The claim: at a step that merges, a transaction of a retained claim occurs as
  often as there are retained rows with its \<^verbatim>\<open>claim_id\<close>, and the frame is the plain
  restriction of the original frame exactly when every \<^verbatim>\<open>claim_id\<close> has a single row.
  In the example \<^verbatim>\<open>X\<close> has two rows, both retained. Steps 25 and 26 both merge, each
  into the result of the step before, so at step 26 the payment of \<^verbatim>\<open>X\<close> occurs four
  times, not twice. And the reserve frame, which holds nothing of \<^verbatim>\<open>X\<close>, is the plain
  restriction although \<^verbatim>\<open>X\<close> has two rows.
\<close>

theorem repeated_merge_multiplies:
  "0 < one_percent_index (length dup_df) 26 \<and>
   count_list (map claim_id (attritional_claims dup_df 26)) ''X'' = 2 \<and>
   count_list dup_paid (txn ''X'' ''Motor'' (Some 1) 10 50) = 1 \<and>
   count_list (filtered dup_df 26 dup_paid) (txn ''X'' ''Motor'' (Some 1) 10 50) = 4 \<and>
   \<not> distinct (map claim_id dup_df) \<and>
   filtered dup_df 26 dup_ocr =
     filter (\<lambda>r. claim_id r \<in> set (map claim_id (attritional_claims dup_df 26))) dup_ocr"
  by (simp add: length_dup_df idx_4_26 attritional_dup filtered_dup_26 count_merge_on_claim_id)
     (simp add: dup_paid_def dup_ocr_def txn_def dup_df_eval mk_claim_def merge_on_claim_id_def)

text \<open>
  C10, as the notebook behaves: a step that merges joins the frame left by the step
  before with the \<^verbatim>\<open>claim_id\<close> column of the retained rows. A transaction therefore
  occurs as often as in the original frame, times the product over the merging steps so
  far of the number of rows retained at that step with its \<^verbatim>\<open>claim_id\<close>. When every
  \<^verbatim>\<open>claim_id\<close> has a single row, the frame of a merging step is the original frame
  restricted to the claims retained at that step.
\<close>

theorem merge_step_semantics:
  "(0 < one_percent_index (length df) (Suc i) \<longrightarrow>
      filtered df (Suc i) txns =
        merge_on_claim_id (filtered df i txns) (map claim_id (attritional_claims df (Suc i)))) \<and>
   count_list (filtered df i txns) r =
     count_list txns r * prod_list (map (\<lambda>j. step_factor df j (claim_id r)) [0..<Suc i]) \<and>
   (distinct (map claim_id df) \<and> 0 < one_percent_index (length df) i \<longrightarrow>
      filtered df i txns =
        filter (\<lambda>r. claim_id r \<in> set (map claim_id (attritional_claims df i))) txns)"
  by (simp add: filtered_Suc filter_step_def count_filtered filtered_restrict del: upt_Suc)

lemma prod_factors_demo:
  "prod_list (map (\<lambda>j. step_factor demo_df j ''B'') [0..<Suc 25]) = 1"
proof -
  have "step_factor demo_df j ''B'' = 1" if "j \<le> 25" for j
  proof (cases "j = 25")
    case True
    then show ?thesis
      by (simp add: step_factor_def attritional_demo_25)
  next
    case False
    with that have "j \<le> 24" by simp
    from one_percent_index_mono [OF this, of 4] show ?thesis
      by (simp add: step_factor_def length_demo_df idx_4_24)
  qed
  then have "map (\<lambda>j. step_factor demo_df j ''B'') [0..<Suc 25] = map (\<lambda>j. 1) [0..<Suc 25]"
    by (intro map_cong) auto
  then show ?thesis by (simp del: upt_Suc add: map_replicate_const)
qed

theorem merge_step_semantics_witness:
  "0 < one_percent_index (length demo_df) (Suc 24) \<and>
   filtered demo_df (Suc 24) demo_paid =
     merge_on_claim_id (filtered demo_df 24 demo_paid) (map claim_id (attritional_claims demo_df (Suc 24))) \<and>
   count_list (filtered demo_df 25 demo_paid) (txn ''B'' ''Motor'' (Some 1) 10 300) = 1 \<and>
   distinct (map claim_id demo_df) \<and> 0 < one_percent_index (length demo_df) 25 \<and>
   filtered demo_df 25 demo_paid =
     filter (\<lambda>r. claim_id r \<in> set (map claim_id (attritional_claims demo_df 25))) demo_paid"
  using merge_step_semantics [of demo_df 24 demo_paid "txn ''B'' ''Motor'' (Some 1) 10 300"]
    merge_step_semantics [of demo_df 25 demo_paid "txn ''B'' ''Motor'' (Some 1) 10 300"]
    prod_factors_demo
  by (simp add: length_demo_df idx_4_25 del: upt_Suc)
     (simp add: demo_df_eval mk_claim_def demo_paid_def txn_def)

subsection \<open>The aggregation\<close>

lemma key_of_mk_claim [simp]: "key_of (mk_claim k g n) = k"
  by (simp add: key_of_def mk_claim_def)

lemma loss_date_mk_claim [simp]: "loss_date (mk_claim k g n) = snd (snd k)"
  by (simp add: mk_claim_def)

lemma gross_amount_mk_claim [simp]: "gross_amount (mk_claim k g n) = g"
  by (simp add: mk_claim_def)






















subsection \<open>The run of one segment\<close>

lemma sweep_loop_ok:
  "length ms = length steps \<Longrightarrow>
   (\<forall>j < length steps.
      mack (fold (filter_step df) (take (Suc j) steps) (segment_paid st))
           (fold (filter_step df) (take (Suc j) steps) (segment_ocr st)) = Inr (ms ! j)) \<Longrightarrow>
   sweep_loop mack df steps st =
     Inr \<lparr>segment_paid = fold (filter_step df) steps (segment_paid st),
          segment_ocr = fold (filter_step df) steps (segment_ocr st),
          claims_percentage = claims_percentage st @ map percentage_at steps,
          mack_mse = mack_mse st @ ms\<rparr>"
proof (induction steps arbitrary: st ms)
  case Nil
  then show ?case by simp
next
  case (Cons i rest)
  from Cons.prems(1) obtain m ms' where ms: "ms = m # ms'" and len: "length ms' = length rest"
    by (cases ms) auto
  from Cons.prems(2) [rule_format, of 0]
  have m: "mack (filter_step df i (segment_paid st)) (filter_step df i (segment_ocr st)) = Inr m"
    by (simp add: ms)
  define st1 where "st1 = \<lparr>segment_paid = filter_step df i (segment_paid st),
      segment_ocr = filter_step df i (segment_ocr st),
      claims_percentage = claims_percentage st @ [percentage_at i],
      mack_mse = mack_mse st @ [m]\<rparr>"
  have s1: "sweep_step mack df i st = Inr st1"
    by (simp add: sweep_step_def Let_def m st1_def percentage_at_def)
  have "sweep_loop mack df rest st1 =
     Inr \<lparr>segment_paid = fold (filter_step df) rest (segment_paid st1),
          segment_ocr = fold (filter_step df) rest (segment_ocr st1),
          claims_percentage = claims_percentage st1 @ map percentage_at rest,
          mack_mse = mack_mse st1 @ ms'\<rparr>"
  proof (rule Cons.IH [OF len], intro allI impI)
    fix j assume "j < length rest"
    then have "Suc j < length (i # rest)" by simp
    from Cons.prems(2) [rule_format, OF this]
    show "mack (fold (filter_step df) (take (Suc j) rest) (segment_paid st1))
           (fold (filter_step df) (take (Suc j) rest) (segment_ocr st1)) = Inr (ms' ! j)"
      by (simp add: ms st1_def)
  qed
  then show ?case using s1 by (simp add: st1_def ms)
qed

lemma run_segment_ok:
  assumes "\<forall>i \<le> interval. mack (filtered df i paid) (filtered df i ocr) = Inr (m i)"
  shows "\<exists>k. max_drop_index (map m [0..<interval + 1]) = Inr k \<and> 1 \<le> k \<and> k \<le> interval \<and>
           run_segment mack df paid ocr =
             Inr \<lparr>threshold = percentage_at k,
                  large_claims = take (one_percent_index (length df) interval) (sort_values df)\<rparr>"
proof -
  let ?steps = "[0..<interval + 1]"
  let ?ms = "map m ?steps"
  have eq: "fold (filter_step df) (take (Suc j) ?steps) txns = filtered df j txns"
    if "j \<le> interval" for j txns
    by (rule filtered_fold) (use that in simp)
  have loop: "sweep_loop mack df ?steps (init_state paid ocr) =
     Inr \<lparr>segment_paid = fold (filter_step df) ?steps (segment_paid (init_state paid ocr)),
          segment_ocr = fold (filter_step df) ?steps (segment_ocr (init_state paid ocr)),
          claims_percentage = claims_percentage (init_state paid ocr) @ map percentage_at ?steps,
          mack_mse = mack_mse (init_state paid ocr) @ ?ms\<rparr>"
  proof (rule sweep_loop_ok, simp, intro allI impI)
    fix j assume "j < length ?steps"
    then have j: "j \<le> interval" by simp
    then have nth: "?ms ! j = m j"
      by (metis \<open>j < length ?steps\<close> add_0 length_upt minus_nat.diff_0 nth_map nth_upt)
    show "mack (fold (filter_step df) (take (Suc j) ?steps) (segment_paid (init_state paid ocr)))
           (fold (filter_step df) (take (Suc j) ?steps) (segment_ocr (init_state paid ocr))) = Inr (?ms ! j)"
      unfolding eq [OF j] nth using assms j by (simp add: init_state_def)
  qed
  have len: "2 \<le> length ?ms" by (simp add: interval_30)
  from max_drop_index_spec [OF len] obtain k where k: "max_drop_index ?ms = Inr k"
    "1 \<le> k" "k < length ?ms" by blast
  then have kle: "k \<le> interval" by simp
  have pk: "map percentage_at ?steps ! k = percentage_at k"
    using kle by (metis add_0 k(3) length_map length_upt minus_nat.diff_0 nth_map nth_upt)
  have "drop_detector (map percentage_at ?steps) ?ms = Inr (percentage_at k)"
    using k(1) pk by (simp add: drop_detector_def del: upt_Suc)
  then have "run_segment mack df paid ocr =
             Inr \<lparr>threshold = percentage_at k,
                  large_claims = take (one_percent_index (length df) interval) (sort_values df)\<rparr>"
    using loop by (simp add: run_segment_def init_state_def del: upt_Suc)
  with k(1,2) kle show ?thesis by blast
qed



subsection \<open>The loop over the segments\<close>

lemma distinct_unique: "distinct (unique xs)"
  by (simp add: unique_def)

lemma set_unique: "set (unique xs) = set xs"
  by (simp add: unique_def)

lemma run_segments_Inr:
  "distinct ss \<Longrightarrow> run_segments mack df paid_data ocr_data ss tp = Inr d \<Longrightarrow>
     (\<forall>s \<in> set ss. \<exists>res.
        run_segment mack (in_segment s df) (in_segment s paid_data) (in_segment s ocr_data) = Inr res \<and>
        d (''Rwanda '' @ s) = Some (threshold res)) \<and>
     (\<forall>key. key \<notin> (\<lambda>s. ''Rwanda '' @ s) ` set ss \<longrightarrow> d key = tp key)"
proof (induction ss arbitrary: tp)
  case Nil
  then show ?case by simp
next
  case (Cons s rest)
  from Cons.prems(2) obtain res where
    res: "run_segment mack (in_segment s df) (in_segment s paid_data) (in_segment s ocr_data) = Inr res"
    and rest: "run_segments mack df paid_data ocr_data rest (tp(''Rwanda '' @ s \<mapsto> threshold res)) = Inr d"
    by (auto split: sum.splits)
  from Cons.prems(1) have dist: "distinct rest" and s: "s \<notin> set rest" by simp_all
  note IH = Cons.IH [OF dist rest]
  have "''Rwanda '' @ s \<notin> (\<lambda>s. ''Rwanda '' @ s) ` set rest" using s by auto
  with IH have ds: "d (''Rwanda '' @ s) = Some (threshold res)" by simp
  show ?case
  proof (intro conjI ballI allI impI)
    fix s' assume "s' \<in> set (s # rest)"
    then show "\<exists>res. run_segment mack (in_segment s' df) (in_segment s' paid_data)
                  (in_segment s' ocr_data) = Inr res \<and> d (''Rwanda '' @ s') = Some (threshold res)"
      using res ds IH by auto
  next
    fix key assume "key \<notin> (\<lambda>s. ''Rwanda '' @ s) ` set (s # rest)"
    then show "d key = tp key" using IH by auto
  qed
qed

lemma run_segments_ok:
  "(\<forall>s \<in> set ss. \<not> isl (run_segment mack (in_segment s df) (in_segment s paid_data) (in_segment s ocr_data)))
   \<Longrightarrow> \<exists>d. run_segments mack df paid_data ocr_data ss tp = Inr d"
proof (induction ss arbitrary: tp)
  case Nil
  then show ?case by simp
next
  case (Cons s rest)
  then obtain res where
    "run_segment mack (in_segment s df) (in_segment s paid_data) (in_segment s ocr_data) = Inr res"
    by (cases "run_segment mack (in_segment s df) (in_segment s paid_data) (in_segment s ocr_data)") auto
  with Cons show ?case by simp
qed

lemma run_segment_sum_mack:
  "\<not> isl (run_segment sum_mack df paid ocr)"
proof -
  have "\<forall>i \<le> interval. sum_mack (filtered df i paid) (filtered df i ocr) =
          Inr (sum_list (map gross (filtered df i paid)) + sum_list (map gross (filtered df i ocr)))"
    by (simp add: sum_mack_def)
  from run_segment_ok [of sum_mack df paid ocr, OF this] show ?thesis by auto
qed

lemma notebook_Inr:
  assumes "notebook mack paid_data ocr_data = Inr d"
  shows "(\<forall>s \<in> set (take 4 (segment_list (ocr_claims ocr_data))). \<exists>res.
            run_segment mack (in_segment s (aggregate paid_data ocr_data))
                        (in_segment s paid_data) (in_segment s ocr_data) = Inr res \<and>
            d (''Rwanda '' @ s) = Some (threshold res)) \<and>
         dom d = (\<lambda>s. ''Rwanda '' @ s) ` set (take 4 (segment_list (ocr_claims ocr_data)))"
proof -
  let ?ss = "take 4 (segment_list (ocr_claims ocr_data))"
  have dist: "distinct ?ss" by (simp add: segment_list_def distinct_unique)
  have run: "run_segments mack (aggregate paid_data ocr_data) paid_data ocr_data ?ss Map.empty = Inr d"
    using assms by (simp add: notebook_def Let_def aggregate_def)
  note r = run_segments_Inr [OF dist run]
  have "dom d = (\<lambda>s. ''Rwanda '' @ s) ` set ?ss"
  proof (intro set_eqI iffI)
    fix key assume "key \<in> dom d"
    then show "key \<in> (\<lambda>s. ''Rwanda '' @ s) ` set ?ss" using r by (cases "key \<in> (\<lambda>s. ''Rwanda '' @ s) ` set ?ss") auto
  next
    fix key assume "key \<in> (\<lambda>s. ''Rwanda '' @ s) ` set ?ss"
    then show "key \<in> dom d" using r by auto
  qed
  with r show ?thesis by blast
qed

lemma ocr_claims_five:
  "ocr_claims five_ocr =
     [mk_claim (''A'', ''S1'', Some 1) 40 40, mk_claim (''B'', ''S2'', Some 1) 30 30,
      mk_claim (''C'', ''S3'', Some 1) 20 20, mk_claim (''D'', ''S4'', Some 1) 10 10,
      mk_claim (''E'', ''S5'', Some 1) 5 5]"
  by (simp add: ocr_claims_def five_ocr_def txn_def group_keys_def key_of_def rows_of_def
      dropna_def sql_max_def mk_claim_def)

lemma segment_list_five:
  "segment_list (ocr_claims five_ocr) = [''S1'', ''S2'', ''S3'', ''S4'', ''S5'']"
  by (simp add: ocr_claims_five segment_list_def unique_def mk_claim_def)


lemma max_drop_index_const:
  assumes "2 \<le> n"
  shows "max_drop_index (map (\<lambda>i. c) [0..<n]) = Inr 1"
proof -
  let ?ms = "map (\<lambda>i. c) [0..<n]"
  have len: "2 \<le> length ?ms" using assms by simp
  from max_drop_index_spec [OF len] obtain k where k: "max_drop_index ?ms = Inr k" "1 \<le> k"
    "k < length ?ms" "\<forall>j. 1 \<le> j \<and> j < k \<longrightarrow> delta ?ms j < delta ?ms k" by blast
  have d: "delta ?ms j = 0" if "j < n" for j
    using that by (simp add: delta_def fl_def)
  have "k = 1"
  proof (rule ccontr)
    assume "k \<noteq> 1"
    with k(2) have "1 < k" by simp
    with k(4) have "delta ?ms 1 < delta ?ms k" by simp
    with d [of 1] d [of k] k(3) assms show False by simp
  qed
  with k(1) show ?thesis by simp
qed

lemma idx_1_30: "one_percent_index 1 30 = 0"
  by code_simp

lemma filtered_single:
  assumes "length df \<le> 1" "i \<le> interval"
  shows "filtered df i txns = txns"
proof (rule filtered_unchanged)
  have "one_percent_index (length df) i \<le> one_percent_index (length df) 30"
    using assms(2) by (intro one_percent_index_mono) (simp add: interval_30)
  moreover have "one_percent_index (length df) 30 = 0"
  proof (cases "length df = 0")
    case True
    then show ?thesis by (simp add: one_percent_index_def fl_def py_int_def)
  next
    case False
    with assms(1) have "length df = 1" by (cases df) auto
    then show ?thesis using idx_1_30 by (simp only:)
  qed
  ultimately show "one_percent_index (length df) i = 0" by simp
qed

lemma run_segment_single:
  assumes "length df \<le> 1"
  shows "\<exists>lc. run_segment sum_mack df paid ocr = Inr \<lparr>threshold = percentage_at 1, large_claims = lc\<rparr>"
proof -
  let ?c = "sum_list (map gross paid) + sum_list (map gross ocr)"
  have "\<forall>i \<le> interval. sum_mack (filtered df i paid) (filtered df i ocr) = Inr ((\<lambda>i. ?c) i)"
    using assms by (simp add: filtered_single sum_mack_def)
  from run_segment_ok [of sum_mack df paid ocr "\<lambda>i. ?c", OF this]
  show ?thesis using max_drop_index_const [of "interval + 1" ?c]
    by (auto simp: interval_30 simp del: upt_Suc)
qed

lemma aggregate_five:
  "aggregate [] five_ocr =
     [mk_claim (''A'', ''S1'', Some 1) 40 40, mk_claim (''B'', ''S2'', Some 1) 30 30,
      mk_claim (''C'', ''S3'', Some 1) 20 20, mk_claim (''D'', ''S4'', Some 1) 10 10,
      mk_claim (''E'', ''S5'', Some 1) 5 5]"
  unfolding aggregate_def ocr_claims_five
  by (simp add: paid_claims_def combined_df_def group_keys_def key_of_def rows_of_def dropna_def
      mk_claim_def)

lemma notebook_five:
  "\<exists>d. notebook sum_mack [] five_ocr = Inr d"
  unfolding notebook_def Let_def
  by (rule run_segments_ok) (simp add: run_segment_sum_mack)

text \<open>
  C9. The claim: the sweep is run for every segment present in the input and the result
  has a threshold for every segment. The loop runs over \<^verbatim>\<open>segment_list[:4]\<close>. With
  five segments in the reserve data and a library that never raises, the fourth segment
  is stored and the fifth is not.
\<close>

theorem fifth_segment_not_run:
  "''S5'' \<in> set (map segment five_ocr) \<and>
   stored (notebook sum_mack [] five_ocr) ''Rwanda S4'' = Inr (Some (percentage_at 1)) \<and>
   stored (notebook sum_mack [] five_ocr) ''Rwanda S5'' = Inr None"
proof -
  from notebook_five obtain d where d: "notebook sum_mack [] five_ocr = Inr d" by blast
  note r = notebook_Inr [OF d, unfolded segment_list_five]
  have s4: "''S4'' \<in> set (take 4 [''S1'', ''S2'', ''S3'', ''S4'', ''S5''])" by simp
  from r s4 obtain res where
    res: "run_segment sum_mack (in_segment ''S4'' (aggregate [] five_ocr)) (in_segment ''S4'' [])
            (in_segment ''S4'' five_ocr) = Inr res"
    and d4: "d (''Rwanda '' @ ''S4'') = Some (threshold res)" by blast
  have "length (in_segment ''S4'' (aggregate [] five_ocr)) \<le> 1"
    by (simp add: aggregate_five in_segment_def mk_claim_def)
  from run_segment_single [OF this] res have "threshold res = percentage_at 1"
    by (metis segment_result.select_convs(1) sum.inject(2))
  with d4 have 1: "d ''Rwanda S4'' = Some (percentage_at 1)" by simp
  have "''Rwanda S5'' \<notin> dom d" using r by simp
  then have 2: "d ''Rwanda S5'' = None" by blast
  show ?thesis using d 1 2 by (simp add: stored_def five_ocr_def txn_def)
qed

text \<open>
  C9, as the notebook behaves: the sweep and the detection run once for each of the first
  four segments of \<^verbatim>\<open>ocr_claims\<close>, in order of first appearance, and for no other
  segment. The value stored for a segment is the threshold of the run on the rows of that
  segment alone, under the key \<^verbatim>\<open>Rwanda\<close> followed by the segment. When the reserve claims
  have at most four segments, every one of them has an entry.
\<close>

theorem first_four_segments_run:
  assumes "notebook mack paid_data ocr_data = Inr d"
  shows "dom d = (\<lambda>s. ''Rwanda '' @ s) ` set (take 4 (segment_list (ocr_claims ocr_data))) \<and>
         (\<forall>s \<in> set (take 4 (segment_list (ocr_claims ocr_data))). \<exists>res.
            run_segment mack (in_segment s (aggregate paid_data ocr_data))
                        (in_segment s paid_data) (in_segment s ocr_data) = Inr res \<and>
            d (''Rwanda '' @ s) = Some (threshold res)) \<and>
         (length (segment_list (ocr_claims ocr_data)) \<le> 4 \<longrightarrow>
            dom d = (\<lambda>s. ''Rwanda '' @ s) ` segment ` set (ocr_claims ocr_data))"
proof -
  note r = notebook_Inr [OF assms]
  have "set (segment_list (ocr_claims ocr_data)) = segment ` set (ocr_claims ocr_data)"
    by (simp add: segment_list_def set_unique)
  then have "length (segment_list (ocr_claims ocr_data)) \<le> 4 \<longrightarrow>
      set (take 4 (segment_list (ocr_claims ocr_data))) = segment ` set (ocr_claims ocr_data)"
    by simp
  with r show ?thesis by simp
qed

theorem first_four_segments_run_witness:
  "(\<exists>d. notebook sum_mack [] five_ocr = Inr d \<and>
        dom d = {''Rwanda S1'', ''Rwanda S2'', ''Rwanda S3'', ''Rwanda S4''}) \<and>
   (\<exists>d. notebook sum_mack demo_paid demo_ocr = Inr d \<and>
        length (segment_list (ocr_claims demo_ocr)) \<le> 4 \<and>
        segment ` set (ocr_claims demo_ocr) = {''Motor''} \<and>
        dom d = {''Rwanda Motor''})"
proof -
  from notebook_five obtain d where d: "notebook sum_mack [] five_ocr = Inr d" by blast
  from first_four_segments_run [OF d]
  have "dom d = {''Rwanda S1'', ''Rwanda S2'', ''Rwanda S3'', ''Rwanda S4''}"
    unfolding segment_list_five by auto
  with d have 1: "\<exists>d. notebook sum_mack [] five_ocr = Inr d \<and>
        dom d = {''Rwanda S1'', ''Rwanda S2'', ''Rwanda S3'', ''Rwanda S4''}" by blast
  have "\<exists>d. notebook sum_mack demo_paid demo_ocr = Inr d"
    unfolding notebook_def Let_def
    by (rule run_segments_ok) (simp add: run_segment_sum_mack)
  then obtain d' where d': "notebook sum_mack demo_paid demo_ocr = Inr d'" by blast
  have seg: "segment ` set (ocr_claims demo_ocr) = {''Motor''}"
    by (simp add: ocr_claims_demo mk_claim_def)
  from first_four_segments_run [OF d']
  have "dom d' = {''Rwanda Motor''}"
    by (simp add: segment_list_demo)
  with d' seg have 2: "\<exists>d. notebook sum_mack demo_paid demo_ocr = Inr d \<and>
        length (segment_list (ocr_claims demo_ocr)) \<le> 4 \<and>
        segment ` set (ocr_claims demo_ocr) = {''Motor''} \<and>
        dom d = {''Rwanda Motor''}"
    by (simp add: segment_list_demo)
  from 1 2 show ?thesis by blast
qed

subsection \<open>The sort\<close>















subsection \<open>The threshold\<close>


















end
